theory Spec2Isabelle
  imports Main
begin

section \<open>The region worker of the cost inventory: data model\<close>

text \<open>
  The development embeds the class \<open>RegionWorker\<close>: a per-region scheduler that keeps a
  priority queue of request closures, admits one of them each time its single-shot timer
  fires, and counts dispatched, finished and failed tasks. JavaScript runs every callback
  to completion, so each callback of the class is one atomic function on the state, and
  the browser (timers, settling requests, callers of the public methods) is the source of
  the events that pick the next callback. The cost arithmetic of the class, its
  resource sink and \<open>enqueuePagedRequestFold\<close>, which acts on the worker as
  \<open>enqueuePagedRequest\<close> does, are left out; \<open>account.updateProgressLazy()\<close> is
  recorded and has no effect on the worker.
\<close>

subsection \<open>Values, requests and promises\<close>

text \<open>
  A JavaScript value as far as the class looks at it: the two string literals it throws
  or rejects with, \<open>undefined\<close>, and any other object, identified by a number.
\<close>

datatype jsvalue = JString string | JObject nat | JUndefined

text \<open>
  A response of the remote API (\<open>PromiseResult<D, E>\<close>): its payload, whether
  \<open>$response.hasNextPage()\<close> holds, and what \<open>$response.nextPage()\<close> returns (a request,
  identified by a number, or nothing).
\<close>

record response =
  payload :: nat
  hasNextPage :: bool
  nextPage :: "nat option"

text \<open>How the promise of a request settles: with a response, or rejected with a reason.\<close>

datatype request_result = Succeeds response | Fails jsvalue

text \<open>
  A page handler is a function of the response that returns a value (\<open>Inr\<close>) or throws
  one (\<open>Inl\<close>). Calls that a handler itself makes on the worker are separate events of
  the transition system below.
\<close>

type_synonym handler = "response \<Rightarrow> jsvalue + jsvalue"

text \<open>
  \<open>CancelToken\<close> is a number that starts at 0 and is only ever incremented.
\<close>

type_synonym CancelToken = nat

text \<open>
  The closures that the class passes to its private \<open>enqueue\<close>. There are three places
  that build one: \<open>enqueueRequest\<close> (a single request, its handler and the
  \<open>resolve\<close>/\<open>reject\<close> pair of the promise it returns), and \<open>enqueuePagedRequest\<close> and
  the continuation of \<open>handlePagedResponse\<close>, which build the same closure over a
  priority, a request, the handler and the pair of the overall promise. A promise is
  identified by a number, and its \<open>resolve\<close>/\<open>reject\<close> pair by the same number.
\<close>

datatype action =
  RequestFn nat handler nat
| PagedFn int nat handler nat

record QueueItem =
  priority :: int
  fn :: action

datatype promise_state = Pending | Fulfilled jsvalue | Rejected jsvalue

text \<open>
  A task that \<open>processQueue\<close> has started and whose callbacks have not all run. The
  chain is \<open>one.fn(cancel).catch(h1).finally(h2)\<close>: the task first waits for its request
  to settle, then (only when the promise of \<open>fn\<close> rejected) for \<open>h1\<close>, then for
  \<open>h2\<close>. The token is the constant \<open>cancel\<close> captured when the task was started.
\<close>

datatype phase = AwaitResponse | AwaitCatch | AwaitFinally

record running_task =
  token :: CancelToken
  act :: action
  phase :: phase

text \<open>
  Method invocations that the properties below count. They are recorded, newest first,
  in a field that the class does not have.
\<close>

datatype call =
  CallFillQueue
| CallUpdateProgressLazy
| CallHandler nat
| CallEnqueue

datatype error = CannotResetWhileRunning

subsection \<open>The state\<close>

text \<open>
  The fields of the class, under their names (\<open>started\<close> is \<open>_started\<close>, the counters
  are \<open>_progressDone\<close>, \<open>_progressTotal\<close> and \<open>_progressErrors\<close>; \<open>timeout\<close> is a
  \<open>Maybe<number>\<close>).
\<close>

record RegionWorker =
  queue :: "QueueItem list"
  queueFilled :: bool
  started :: bool
  processing :: bool
  timeout :: "nat option"
  cancel :: CancelToken
  progressDone :: nat
  progressTotal :: nat
  progressErrors :: nat

text \<open>
  The worker together with what the browser holds for it: the timers that
  \<open>window.setTimeout\<close> armed and that neither fired nor were cleared, the next timer
  identifier, the started tasks, the promises handed out, and the record of calls.
\<close>

record world = RegionWorker +
  timers :: "nat list"
  nextTimer :: nat
  inflight :: "running_task list"
  promises :: "nat \<Rightarrow> promise_state"
  nextPromise :: nat
  calls :: "call list"

definition init :: world where
  "init = \<lparr> queue = [], queueFilled = False, started = False, processing = False,
            timeout = None, cancel = 0,
            progressDone = 0, progressTotal = 0, progressErrors = 0,
            timers = [], nextTimer = 1, inflight = [],
            promises = (\<lambda>_. Pending), nextPromise = 0, calls = [] \<rparr>"

section \<open>The priority queue\<close>

text \<open>
  Modelled from the spec: the module \<open>datastructures/priority-queue\<close> that the class
  imports is missing. The spec gives its contract: \<open>push\<close> inserts, \<open>pop\<close> returns the
  item with the numerically lowest priority, ties broken by arrival order, wrapped in an
  optional that is empty on the empty queue, \<open>clear\<close> discards all items and \<open>empty\<close>
  reports whether none remain. The queue is kept as the list of its items in arrival
  order.
\<close>

text \<open>Modelled from the spec: \<open>push\<close> inserts the item; it arrives last.\<close>

definition pq_push :: "QueueItem \<Rightarrow> QueueItem list \<Rightarrow> QueueItem list" where
  "pq_push item q = q @ [item]"

text \<open>
  Modelled from the spec: \<open>pop\<close> removes and returns the item with the numerically
  lowest priority, the earliest arrived among equals, or nothing on the empty queue.
\<close>

fun pq_pop :: "QueueItem list \<Rightarrow> (QueueItem \<times> QueueItem list) option" where
  "pq_pop [] = None"
| "pq_pop (x # xs) =
     (case pq_pop xs of
        None \<Rightarrow> Some (x, [])
      | Some (y, ys) \<Rightarrow> if priority x \<le> priority y then Some (x, xs) else Some (y, x # ys))"

text \<open>Modelled from the spec: \<open>clear\<close> discards all items.\<close>

definition pq_clear :: "QueueItem list \<Rightarrow> QueueItem list" where
  "pq_clear q = []"

text \<open>Modelled from the spec: \<open>empty\<close> reports whether no item remains.\<close>

definition pq_empty :: "QueueItem list \<Rightarrow> bool" where
  "pq_empty q = (q = [])"

section \<open>The methods of the class\<close>

subsection \<open>Promises and the timer\<close>

text \<open>\<open>resolve\<close> and \<open>reject\<close> of a promise act only while it is pending.\<close>

definition resolve :: "nat \<Rightarrow> jsvalue \<Rightarrow> world \<Rightarrow> world" where
  "resolve p v s =
     (if promises s p = Pending then s\<lparr>promises := (promises s)(p := Fulfilled v)\<rparr> else s)"

definition reject :: "nat \<Rightarrow> jsvalue \<Rightarrow> world \<Rightarrow> world" where
  "reject p v s =
     (if promises s p = Pending then s\<lparr>promises := (promises s)(p := Rejected v)\<rparr> else s)"

definition record_call :: "call \<Rightarrow> world \<Rightarrow> world" where
  "record_call c s = s\<lparr>calls := c # calls s\<rparr>"

definition cancelled :: "world \<Rightarrow> CancelToken \<Rightarrow> bool" where
  "cancelled s tok = (cancel s \<noteq> tok)"

definition discardTimeout :: "world \<Rightarrow> world" where
  "discardTimeout s =
     (case timeout s of
        None \<Rightarrow> s
      | Some interval \<Rightarrow> s\<lparr>timers := removeAll interval (timers s), timeout := None\<rparr>)"

definition ensureTimeout :: "world \<Rightarrow> world" where
  "ensureTimeout s =
     (if timeout s = None
      then s\<lparr>timers := nextTimer s # timers s, nextTimer := nextTimer s + 1,
             timeout := Some (nextTimer s)\<rparr>
      else s)"

subsection \<open>Enqueueing\<close>

definition enqueue :: "int \<Rightarrow> action \<Rightarrow> world \<Rightarrow> world" where
  "enqueue prio f s =
     (let s1 = record_call CallEnqueue s;
          s2 = s1\<lparr>progressTotal := progressTotal s1 + 1\<rparr>;
          s3 = s2\<lparr>queue := pq_push \<lparr>priority = prio, fn = f\<rparr> (queue s2)\<rparr>;
          s4 = record_call CallUpdateProgressLazy s3
      in if started s4 then ensureTimeout s4 else s4)"

text \<open>
  \<open>new Promise\<close> runs its executor at once: the promise exists, pending, and the closure
  over its \<open>resolve\<close>/\<open>reject\<close> is enqueued. The functions return the promise.
\<close>

definition enqueueRequest :: "int \<Rightarrow> nat \<Rightarrow> handler \<Rightarrow> world \<Rightarrow> nat \<times> world" where
  "enqueueRequest prio request h s =
     (let p = nextPromise s;
          s1 = s\<lparr>nextPromise := p + 1\<rparr>
      in (p, enqueue prio (RequestFn request h p) s1))"

definition enqueuePagedRequest :: "int \<Rightarrow> nat \<Rightarrow> handler \<Rightarrow> world \<Rightarrow> nat \<times> world" where
  "enqueuePagedRequest prio request h s =
     (let p = nextPromise s;
          s1 = s\<lparr>nextPromise := p + 1\<rparr>
      in (p, enqueue prio (PagedFn prio request h p) s1))"

subsection \<open>The callbacks of a task\<close>

text \<open>
  How a callback ends: it returns, or it throws a value; either way the state it leaves
  is the one it reached.
\<close>

datatype completion = Returns world | Throws jsvalue world

fun state_of :: "completion \<Rightarrow> world" where
  "state_of (Returns s) = s"
| "state_of (Throws e s) = s"

text \<open>Calling the handler records the call and returns or throws as the handler does.\<close>

definition call_handler :: "handler \<Rightarrow> nat \<Rightarrow> response \<Rightarrow> world \<Rightarrow> (jsvalue + jsvalue) \<times> world" where
  "call_handler h p r s = (h r, record_call (CallHandler p) s)"

text \<open>The \<open>then\<close> callback in the closure of \<open>enqueueRequest\<close>.\<close>

definition requestThen :: "response \<Rightarrow> CancelToken \<Rightarrow> handler \<Rightarrow> nat \<Rightarrow> world \<Rightarrow> completion" where
  "requestThen r tok h p s =
     (if cancelled s tok then Returns (reject p (JString ''cancelled'') s)
      else case call_handler h p r s of
             (Inl e, s1) \<Rightarrow> Throws e s1
           | (Inr v, s1) \<Rightarrow> Returns (resolve p v s1))"

definition handlePagedResponse ::
  "int \<Rightarrow> response \<Rightarrow> CancelToken \<Rightarrow> handler \<Rightarrow> nat \<Rightarrow> world \<Rightarrow> completion" where
  "handlePagedResponse prio r tok h p s =
     (if cancelled s tok then Returns (reject p (JString ''cancelled'') s)
      else case call_handler h p r s of
             (Inl e, s1) \<Rightarrow> Throws e s1
           | (Inr v, s1) \<Rightarrow>
               if hasNextPage r
               then (case nextPage r of
                       None \<Rightarrow> Throws (JString ''AWS is a liar'') s1
                     | Some np \<Rightarrow> Returns (enqueue prio (PagedFn prio np h p) s1))
               else Returns (resolve p JUndefined s1))"

text \<open>The \<open>catch\<close> callback in the paged closures: reject the overall promise, rethrow.\<close>

definition pagedCatch :: "nat \<Rightarrow> jsvalue \<Rightarrow> world \<Rightarrow> completion" where
  "pagedCatch p e s = Throws e (reject p e s)"

text \<open>
  What the promise returned by \<open>one.fn(cancel)\<close> does when the request settles:
  \<open>Returns\<close> is a fulfilled promise, \<open>Throws\<close> a rejected one. The closure of
  \<open>enqueueRequest\<close> is \<open>request.promise().then(...)\<close>, so a failed request rejects it
  untouched; the paged closures add \<open>.catch(...)\<close>, which sees both a failed request and
  a throw of the \<open>then\<close> callback. The \<open>catch\<close> callback touches only the promise, which
  no other code holds, so it is run together with the \<open>then\<close> callback.
\<close>

fun settle :: "action \<Rightarrow> CancelToken \<Rightarrow> request_result \<Rightarrow> world \<Rightarrow> completion" where
  "settle (RequestFn request h p) tok (Fails e) s = Throws e s"
| "settle (RequestFn request h p) tok (Succeeds r) s = requestThen r tok h p s"
| "settle (PagedFn prio request h p) tok (Fails e) s = pagedCatch p e s"
| "settle (PagedFn prio request h p) tok (Succeeds r) s =
     (case handlePagedResponse prio r tok h p s of
        Returns s1 \<Rightarrow> Returns s1
      | Throws e s1 \<Rightarrow> pagedCatch p e s1)"

subsection \<open>Processing the queue\<close>

text \<open>
  \<open>processQueue\<close> pops one item, if there is one, and starts it with the current token.
  The two callbacks it chains run later: \<open>catchHandler\<close> when the promise of the task
  rejected, \<open>finallyHandler\<close> in both cases.
\<close>

definition processQueue :: "world \<Rightarrow> world" where
  "processQueue s =
     (case pq_pop (queue s) of
        None \<Rightarrow> s
      | Some (one, rest) \<Rightarrow>
          s\<lparr>queue := rest, processing := True,
            inflight := inflight s @ [\<lparr>token = cancel s, act = fn one, phase = AwaitResponse\<rparr>]\<rparr>)"

definition catchHandler :: "CancelToken \<Rightarrow> world \<Rightarrow> world" where
  "catchHandler tok s =
     (if \<not> cancelled s tok then s\<lparr>progressErrors := progressErrors s + 1\<rparr> else s)"

definition finallyHandler :: "CancelToken \<Rightarrow> world \<Rightarrow> world" where
  "finallyHandler tok s =
     (let s1 = (if \<not> cancelled s tok then s\<lparr>progressDone := progressDone s + 1\<rparr> else s);
          s2 = s1\<lparr>processing := False\<rparr>;
          s3 = record_call CallUpdateProgressLazy s2
      in ensureTimeout s3)"

text \<open>The callback that \<open>ensureTimeout\<close> hands to \<open>window.setTimeout\<close>.\<close>

definition timerCallback :: "world \<Rightarrow> world" where
  "timerCallback s = processQueue (s\<lparr>timeout := None\<rparr>)"

subsection \<open>Lifecycle\<close>

text \<open>
  \<open>fillQueue\<close> is abstract. Its synchronous part is a list of calls of the two
  protected enqueueing methods; what it enqueues later arrives as separate events.
\<close>

datatype api_call =
  EnqueueRequest int nat handler
| EnqueuePagedRequest int nat handler

fun api :: "api_call \<Rightarrow> world \<Rightarrow> world" where
  "api (EnqueueRequest prio request h) s = snd (enqueueRequest prio request h s)"
| "api (EnqueuePagedRequest prio request h) s = snd (enqueuePagedRequest prio request h s)"

definition fillQueue :: "api_call list \<Rightarrow> world \<Rightarrow> world" where
  "fillQueue body s = fold api body (record_call CallFillQueue s)"

definition start :: "api_call list \<Rightarrow> world \<Rightarrow> world" where
  "start body s =
     (if started s then s
      else let s1 = s\<lparr>started := True\<rparr>;
               s2 = ensureTimeout s1
           in if \<not> queueFilled s2 then fillQueue body (s2\<lparr>queueFilled := True\<rparr>) else s2)"

definition stop :: "world \<Rightarrow> world" where
  "stop s = (if \<not> started s then s else discardTimeout (s\<lparr>started := False\<rparr>))"

definition finished :: "world \<Rightarrow> bool" where
  "finished s = (pq_empty (queue s) \<and> \<not> processing s)"

definition running :: "world \<Rightarrow> bool" where
  "running s = (started s \<and> \<not> finished s)"

definition resetProgress :: "world \<Rightarrow> error + world" where
  "resetProgress s =
     (if running s then Inl CannotResetWhileRunning
      else Inr (s\<lparr>progressDone := 0, progressTotal := 0, progressErrors := 0,
                  queueFilled := False, queue := pq_clear (queue s),
                  cancel := cancel s + 1\<rparr>))"

section \<open>The transition system\<close>

text \<open>
  The events that run a callback of the class: a caller invokes \<open>start\<close>, \<open>stop\<close>,
  \<open>resetProgress\<close> or one of the enqueueing methods; an armed timer fires; the request
  of a started task settles; the \<open>catch\<close> or the \<open>finally\<close> callback of a task runs.
  A started task is addressed by its position among the started tasks. \<open>step\<close> is
  \<open>None\<close> for an event that cannot happen in the state: a timer that is not armed, a
  task that is not there or not in the phase of the callback.
\<close>

datatype event =
  Start "api_call list"
| Stop
| ResetProgress
| Api api_call
| Fire nat
| Respond nat request_result
| Catch nat
| Finally nat

definition set_phase :: "nat \<Rightarrow> phase \<Rightarrow> world \<Rightarrow> world" where
  "set_phase i ph s = s\<lparr>inflight := (inflight s)[i := (inflight s ! i)\<lparr>phase := ph\<rparr>]\<rparr>"

definition drop_task :: "nat \<Rightarrow> world \<Rightarrow> world" where
  "drop_task i s = s\<lparr>inflight := take i (inflight s) @ drop (Suc i) (inflight s)\<rparr>"

definition in_phase :: "world \<Rightarrow> nat \<Rightarrow> phase \<Rightarrow> bool" where
  "in_phase s i ph = (i < length (inflight s) \<and> phase (inflight s ! i) = ph)"

fun step :: "event \<Rightarrow> world \<Rightarrow> world option" where
  "step (Start body) s = Some (start body s)"
| "step Stop s = Some (stop s)"
| "step ResetProgress s =
     (case resetProgress s of Inl e \<Rightarrow> Some s | Inr s1 \<Rightarrow> Some s1)"
| "step (Api c) s = Some (api c s)"
| "step (Fire t) s =
     (if t \<in> set (timers s)
      then Some (timerCallback (s\<lparr>timers := removeAll t (timers s)\<rparr>))
      else None)"
| "step (Respond i r) s =
     (if in_phase s i AwaitResponse
      then (case settle (act (inflight s ! i)) (token (inflight s ! i)) r s of
              Returns s1 \<Rightarrow> Some (set_phase i AwaitFinally s1)
            | Throws e s1 \<Rightarrow> Some (set_phase i AwaitCatch s1))
      else None)"
| "step (Catch i) s =
     (if in_phase s i AwaitCatch
      then Some (set_phase i AwaitFinally (catchHandler (token (inflight s ! i)) s))
      else None)"
| "step (Finally i) s =
     (if in_phase s i AwaitFinally
      then Some (drop_task i (finallyHandler (token (inflight s ! i)) s))
      else None)"

fun exec :: "event list \<Rightarrow> world \<Rightarrow> world option" where
  "exec [] s = Some s"
| "exec (e # es) s = (case step e s of None \<Rightarrow> None | Some s1 \<Rightarrow> exec es s1)"

section \<open>Notions used to state the properties\<close>

text \<open>A handler that returns \<open>undefined\<close>, for the concrete runs.\<close>

definition ok_handler :: handler where
  "ok_handler r = Inr JUndefined"




text \<open>The promise whose \<open>resolve\<close>/\<open>reject\<close> pair a closure holds.\<close>

fun promise_of :: "action \<Rightarrow> nat" where
  "promise_of (RequestFn request h p) = p"
| "promise_of (PagedFn prio request h p) = p"

text \<open>
  The closures that can still settle promise \<open>p\<close>: the queued ones and the ones of
  started tasks whose request has not settled.
\<close>

definition holders :: "world \<Rightarrow> nat \<Rightarrow> nat" where
  "holders s p =
     length (filter (\<lambda>x. promise_of (fn x) = p) (queue s))
     + length (filter (\<lambda>t. phase t = AwaitResponse \<and> promise_of (act t) = p) (inflight s))"

text \<open>
  The invariants. Counters: every task dispatched since the last reset is queued, started
  and not yet through its \<open>finally\<close> callback, or counted as done; an error is counted at
  most once per task that is done or about to be; no started task carries a token of the
  future. Pacer: a started worker with queued work has its timer armed or a task in
  progress. Timers: the browser holds exactly the timer of the handle. Promises: at most
  one closure can settle a promise, and while one can, the promise is pending.
\<close>

definition counters_inv :: "world \<Rightarrow> bool" where
  "counters_inv s =
     (progressDone s + length (filter (\<lambda>r. token r = cancel s) (inflight s)) + length (queue s)
        = progressTotal s
      \<and> progressErrors s
          \<le> progressDone s
            + length (filter (\<lambda>r. token r = cancel s \<and> phase r = AwaitFinally) (inflight s))
      \<and> (\<forall>r \<in> set (inflight s). token r \<le> cancel s))"

definition pacer_inv :: "world \<Rightarrow> bool" where
  "pacer_inv s = (started s \<and> queue s \<noteq> [] \<longrightarrow> timeout s \<noteq> None \<or> processing s)"

definition timers_inv :: "world \<Rightarrow> bool" where
  "timers_inv s =
     (timers s = (case timeout s of None \<Rightarrow> [] | Some t \<Rightarrow> [t])
      \<and> (\<forall>t \<in> set (timers s). t < nextTimer s))"

definition promise_inv :: "world \<Rightarrow> bool" where
  "promise_inv s =
     (\<forall>p. holders s p \<le> 1
        \<and> (0 < holders s p \<longrightarrow> p < nextPromise s)
        \<and> (0 < holders s p \<or> nextPromise s \<le> p \<longrightarrow> promises s p = Pending))"

section \<open>Basic facts\<close>

subsection \<open>Evaluation\<close>

text \<open>The definitions that a concrete run unfolds.\<close>

lemmas ev = init_def pq_push_def pq_clear_def pq_empty_def resolve_def reject_def record_call_def
  cancelled_def discardTimeout_def ensureTimeout_def enqueue_def enqueueRequest_def enqueuePagedRequest_def
  call_handler_def requestThen_def handlePagedResponse_def pagedCatch_def processQueue_def catchHandler_def
  finallyHandler_def timerCallback_def fillQueue_def start_def stop_def finished_def running_def resetProgress_def
  set_phase_def drop_task_def in_phase_def Let_def

subsection \<open>The queue and counting in lists\<close>

lemma pq_pop_None: "pq_pop q = None \<longleftrightarrow> q = []"
  by (cases q) (auto split: option.splits)

lemma pq_pop_length: "pq_pop q = Some (x, r) \<Longrightarrow> length q = Suc (length r)"
proof (induction q arbitrary: x r)
  case Nil
  then show ?case by simp
next
  case (Cons a q)
  then show ?case
    by (cases "pq_pop q") (auto simp: pq_pop_None split: if_splits)
qed

lemma pq_pop_filter:
  "pq_pop q = Some (x, r) \<Longrightarrow>
   length (filter P q) = length (filter P r) + (if P x then 1 else 0)"
proof (induction q arbitrary: x r)
  case Nil
  then show ?case by simp
next
  case (Cons a q)
  then show ?case
    by (cases "pq_pop q") (auto simp: pq_pop_None split: if_splits)
qed

lemma filter_update_count:
  "i < length xs \<Longrightarrow>
   length (filter P (xs[i := y])) + (if P (xs ! i) then 1 else 0)
     = length (filter P xs) + (if P y then 1 else 0)"
proof (induction xs arbitrary: i)
  case Nil
  then show ?case by simp
next
  case (Cons a xs)
  then show ?case by (cases i) auto
qed

lemma filter_remove_count:
  "i < length xs \<Longrightarrow>
   length (filter P (take i xs @ drop (Suc i) xs)) + (if P (xs ! i) then 1 else 0)
     = length (filter P xs)"
proof (induction xs arbitrary: i)
  case Nil
  then show ?case by simp
next
  case (Cons a xs)
  then show ?case by (cases i) auto
qed

lemma filter_le: "length (filter (\<lambda>r. P r \<and> Q r) xs) \<le> length (filter P xs)"
  by (induction xs) auto

lemma filter_none: "\<forall>r\<in>set xs. \<not> P r \<Longrightarrow> filter P xs = []"
  by (induction xs) auto

subsection \<open>What each method changes\<close>

lemma ensureTimeout_frame [simp]:
  "queue (ensureTimeout s) = queue s"
  "queueFilled (ensureTimeout s) = queueFilled s"
  "started (ensureTimeout s) = started s"
  "processing (ensureTimeout s) = processing s"
  "cancel (ensureTimeout s) = cancel s"
  "progressDone (ensureTimeout s) = progressDone s"
  "progressTotal (ensureTimeout s) = progressTotal s"
  "progressErrors (ensureTimeout s) = progressErrors s"
  "inflight (ensureTimeout s) = inflight s"
  "promises (ensureTimeout s) = promises s"
  "nextPromise (ensureTimeout s) = nextPromise s"
  "calls (ensureTimeout s) = calls s"
  by (simp_all add: ensureTimeout_def)

lemma ensureTimeout_armed [simp]: "timeout (ensureTimeout s) \<noteq> None"
  by (simp add: ensureTimeout_def)

lemma ensureTimeout_armed_ex [simp]: "\<exists>t. timeout (ensureTimeout s) = Some t"
  by (simp add: ensureTimeout_def)

lemma discardTimeout_frame [simp]:
  "queue (discardTimeout s) = queue s"
  "queueFilled (discardTimeout s) = queueFilled s"
  "started (discardTimeout s) = started s"
  "processing (discardTimeout s) = processing s"
  "cancel (discardTimeout s) = cancel s"
  "progressDone (discardTimeout s) = progressDone s"
  "progressTotal (discardTimeout s) = progressTotal s"
  "progressErrors (discardTimeout s) = progressErrors s"
  "inflight (discardTimeout s) = inflight s"
  "promises (discardTimeout s) = promises s"
  "nextPromise (discardTimeout s) = nextPromise s"
  "calls (discardTimeout s) = calls s"
  "timeout (discardTimeout s) = None"
  by (simp_all add: discardTimeout_def split: option.splits)

lemma enqueue_frame [simp]:
  "queue (enqueue prio f s) = queue s @ [\<lparr>priority = prio, fn = f\<rparr>]"
  "queueFilled (enqueue prio f s) = queueFilled s"
  "started (enqueue prio f s) = started s"
  "processing (enqueue prio f s) = processing s"
  "cancel (enqueue prio f s) = cancel s"
  "progressDone (enqueue prio f s) = progressDone s"
  "progressTotal (enqueue prio f s) = progressTotal s + 1"
  "progressErrors (enqueue prio f s) = progressErrors s"
  "inflight (enqueue prio f s) = inflight s"
  "promises (enqueue prio f s) = promises s"
  "nextPromise (enqueue prio f s) = nextPromise s"
  "calls (enqueue prio f s) = CallUpdateProgressLazy # CallEnqueue # calls s"
  by (simp_all add: enqueue_def record_call_def pq_push_def Let_def)

lemma enqueue_timeout:
  "timeout (enqueue prio f s) =
     (if started s \<and> timeout s = None then Some (nextTimer s) else timeout s)"
  by (simp add: enqueue_def record_call_def ensureTimeout_def Let_def)

lemma api_frame [simp]:
  "queueFilled (api c s) = queueFilled s"
  "started (api c s) = started s"
  "processing (api c s) = processing s"
  "cancel (api c s) = cancel s"
  "progressDone (api c s) = progressDone s"
  "progressTotal (api c s) = progressTotal s + 1"
  "progressErrors (api c s) = progressErrors s"
  "inflight (api c s) = inflight s"
  "promises (api c s) = promises s"
  "nextPromise (api c s) = nextPromise s + 1"
  "length (queue (api c s)) = length (queue s) + 1"
  "calls (api c s) = CallUpdateProgressLazy # CallEnqueue # calls s"
  by (cases c; simp add: enqueueRequest_def enqueuePagedRequest_def Let_def)+

lemma api_queue_nonempty [simp]: "queue (api c s) \<noteq> []"
  by (cases c; simp add: enqueueRequest_def enqueuePagedRequest_def Let_def)

lemma api_timeout:
  "timeout (api c s) = (if started s \<and> timeout s = None then Some (nextTimer s) else timeout s)"
  by (cases c; simp add: enqueueRequest_def enqueuePagedRequest_def Let_def enqueue_timeout)

lemma fold_api_frame [simp]:
  "queueFilled (fold api body s) = queueFilled s"
  "started (fold api body s) = started s"
  "processing (fold api body s) = processing s"
  "cancel (fold api body s) = cancel s"
  "progressDone (fold api body s) = progressDone s"
  "progressTotal (fold api body s) = progressTotal s + length body"
  "progressErrors (fold api body s) = progressErrors s"
  "inflight (fold api body s) = inflight s"
  "promises (fold api body s) = promises s"
  "length (queue (fold api body s)) = length (queue s) + length body"
  by (induction body arbitrary: s; simp)+

lemma fold_api_armed: "timeout s \<noteq> None \<Longrightarrow> timeout (fold api body s) \<noteq> None"
  by (induction body arbitrary: s) (simp_all add: api_timeout)


lemma processQueue_frame [simp]:
  "queueFilled (processQueue s) = queueFilled s"
  "started (processQueue s) = started s"
  "cancel (processQueue s) = cancel s"
  "progressDone (processQueue s) = progressDone s"
  "progressTotal (processQueue s) = progressTotal s"
  "progressErrors (processQueue s) = progressErrors s"
  "promises (processQueue s) = promises s"
  "nextPromise (processQueue s) = nextPromise s"
  "calls (processQueue s) = calls s"
  "timeout (processQueue s) = timeout s"
  "timers (processQueue s) = timers s"
  "nextTimer (processQueue s) = nextTimer s"
  by (simp_all add: processQueue_def split: option.splits)

lemma catchHandler_frame [simp]:
  "queue (catchHandler tok s) = queue s"
  "queueFilled (catchHandler tok s) = queueFilled s"
  "started (catchHandler tok s) = started s"
  "processing (catchHandler tok s) = processing s"
  "cancel (catchHandler tok s) = cancel s"
  "progressDone (catchHandler tok s) = progressDone s"
  "progressTotal (catchHandler tok s) = progressTotal s"
  "progressErrors (catchHandler tok s) = progressErrors s + (if cancel s = tok then 1 else 0)"
  "inflight (catchHandler tok s) = inflight s"
  "promises (catchHandler tok s) = promises s"
  "nextPromise (catchHandler tok s) = nextPromise s"
  "calls (catchHandler tok s) = calls s"
  "timeout (catchHandler tok s) = timeout s"
  "timers (catchHandler tok s) = timers s"
  "nextTimer (catchHandler tok s) = nextTimer s"
  by (simp_all add: catchHandler_def cancelled_def)

lemma finallyHandler_frame [simp]:
  "queue (finallyHandler tok s) = queue s"
  "queueFilled (finallyHandler tok s) = queueFilled s"
  "started (finallyHandler tok s) = started s"
  "processing (finallyHandler tok s) = False"
  "cancel (finallyHandler tok s) = cancel s"
  "progressDone (finallyHandler tok s) = progressDone s + (if cancel s = tok then 1 else 0)"
  "progressTotal (finallyHandler tok s) = progressTotal s"
  "progressErrors (finallyHandler tok s) = progressErrors s"
  "inflight (finallyHandler tok s) = inflight s"
  "promises (finallyHandler tok s) = promises s"
  "nextPromise (finallyHandler tok s) = nextPromise s"
  "calls (finallyHandler tok s) = CallUpdateProgressLazy # calls s"
  "timeout (finallyHandler tok s) \<noteq> None"
  by (simp_all add: finallyHandler_def cancelled_def record_call_def Let_def)

lemma finallyHandler_armed_ex [simp]: "\<exists>t. timeout (finallyHandler tok s) = Some t"
  by (simp add: finallyHandler_def Let_def)

lemma resolve_frame [simp]:
  "queue (resolve p v s) = queue s"
  "queueFilled (resolve p v s) = queueFilled s"
  "started (resolve p v s) = started s"
  "processing (resolve p v s) = processing s"
  "cancel (resolve p v s) = cancel s"
  "progressDone (resolve p v s) = progressDone s"
  "progressTotal (resolve p v s) = progressTotal s"
  "progressErrors (resolve p v s) = progressErrors s"
  "inflight (resolve p v s) = inflight s"
  "nextPromise (resolve p v s) = nextPromise s"
  "calls (resolve p v s) = calls s"
  "timeout (resolve p v s) = timeout s"
  "timers (resolve p v s) = timers s"
  "nextTimer (resolve p v s) = nextTimer s"
  by (simp_all add: resolve_def)

lemma reject_frame [simp]:
  "queue (reject p v s) = queue s"
  "queueFilled (reject p v s) = queueFilled s"
  "started (reject p v s) = started s"
  "processing (reject p v s) = processing s"
  "cancel (reject p v s) = cancel s"
  "progressDone (reject p v s) = progressDone s"
  "progressTotal (reject p v s) = progressTotal s"
  "progressErrors (reject p v s) = progressErrors s"
  "inflight (reject p v s) = inflight s"
  "nextPromise (reject p v s) = nextPromise s"
  "calls (reject p v s) = calls s"
  "timeout (reject p v s) = timeout s"
  "timers (reject p v s) = timers s"
  "nextTimer (reject p v s) = nextTimer s"
  by (simp_all add: reject_def)

lemma set_phase_frame [simp]:
  "queue (set_phase i ph s) = queue s"
  "queueFilled (set_phase i ph s) = queueFilled s"
  "started (set_phase i ph s) = started s"
  "processing (set_phase i ph s) = processing s"
  "cancel (set_phase i ph s) = cancel s"
  "progressDone (set_phase i ph s) = progressDone s"
  "progressTotal (set_phase i ph s) = progressTotal s"
  "progressErrors (set_phase i ph s) = progressErrors s"
  "promises (set_phase i ph s) = promises s"
  "nextPromise (set_phase i ph s) = nextPromise s"
  "calls (set_phase i ph s) = calls s"
  "timeout (set_phase i ph s) = timeout s"
  "timers (set_phase i ph s) = timers s"
  "nextTimer (set_phase i ph s) = nextTimer s"
  "inflight (set_phase i ph s) = (inflight s)[i := (inflight s ! i)\<lparr>phase := ph\<rparr>]"
  by (simp_all add: set_phase_def)

lemma drop_task_frame [simp]:
  "queue (drop_task i s) = queue s"
  "queueFilled (drop_task i s) = queueFilled s"
  "started (drop_task i s) = started s"
  "processing (drop_task i s) = processing s"
  "cancel (drop_task i s) = cancel s"
  "progressDone (drop_task i s) = progressDone s"
  "progressTotal (drop_task i s) = progressTotal s"
  "progressErrors (drop_task i s) = progressErrors s"
  "promises (drop_task i s) = promises s"
  "nextPromise (drop_task i s) = nextPromise s"
  "calls (drop_task i s) = calls s"
  "timeout (drop_task i s) = timeout s"
  "timers (drop_task i s) = timers s"
  "nextTimer (drop_task i s) = nextTimer s"
  "inflight (drop_task i s) = take i (inflight s) @ drop (Suc i) (inflight s)"
  by (simp_all add: drop_task_def)

lemma settle_frame [simp]:
  "queueFilled (state_of (settle a tok r s)) = queueFilled s"
  "started (state_of (settle a tok r s)) = started s"
  "processing (state_of (settle a tok r s)) = processing s"
  "cancel (state_of (settle a tok r s)) = cancel s"
  "progressDone (state_of (settle a tok r s)) = progressDone s"
  "progressErrors (state_of (settle a tok r s)) = progressErrors s"
  "inflight (state_of (settle a tok r s)) = inflight s"
  "nextPromise (state_of (settle a tok r s)) = nextPromise s"
  by (cases a; cases r;
      simp add: requestThen_def handlePagedResponse_def pagedCatch_def call_handler_def
        record_call_def split: sum.splits option.splits)+

lemma settle_total:
  "progressTotal (state_of (settle a tok r s)) + length (queue s)
     = progressTotal s + length (queue (state_of (settle a tok r s)))"
  by (cases a; cases r;
      simp add: requestThen_def handlePagedResponse_def pagedCatch_def call_handler_def
        record_call_def split: sum.splits option.splits)

lemma settle_stale:
  "cancel s \<noteq> tok \<Longrightarrow> progressTotal (state_of (settle a tok r s)) = progressTotal s"
  by (cases a; cases r;
      simp add: requestThen_def handlePagedResponse_def pagedCatch_def cancelled_def)

lemma settle_cases:
  fixes a tok r s
  defines "s1 \<equiv> state_of (settle a tok r s)"
  shows "(queue s1 = queue s \<and> (\<forall>p. p \<noteq> promise_of a \<longrightarrow> promises s1 p = promises s p))
       \<or> (\<exists>item. queue s1 = queue s @ [item] \<and> promise_of (fn item) = promise_of a
             \<and> promises s1 = promises s)"
  unfolding s1_def
  by (cases a; cases r;
      simp add: requestThen_def handlePagedResponse_def pagedCatch_def call_handler_def
        record_call_def resolve_def reject_def split: sum.splits option.splits)

lemma start_armed: "\<not> started s \<Longrightarrow> timeout (start body s) \<noteq> None"
  by (simp add: start_def fillQueue_def Let_def fold_api_armed record_call_def del: not_None_eq)

subsection \<open>Runs\<close>

text \<open>
  A property that holds initially and that every step preserves holds after every run.
  A \<open>Respond\<close> step is the settling of the request followed by a change of phase.
\<close>

lemma exec_invariant:
  assumes "\<And>e s s1. P s \<Longrightarrow> step e s = Some s1 \<Longrightarrow> P s1"
  shows "P s \<Longrightarrow> exec es s = Some s1 \<Longrightarrow> P s1"
proof (induction es arbitrary: s)
  case Nil
  then show ?case by simp
next
  case (Cons e es)
  then show ?case by (auto split: option.splits intro: assms)
qed

lemma step_respond:
  assumes "step (Respond i r) s = Some s1"
  obtains ph where "in_phase s i AwaitResponse" "ph \<noteq> AwaitResponse"
    "s1 = set_phase i ph (state_of (settle (act (inflight s ! i)) (token (inflight s ! i)) r s))"
  using assms
  by (cases "settle (act (inflight s ! i)) (token (inflight s ! i)) r s")
     (auto split: if_splits)

section \<open>Invariants\<close>

subsection \<open>The counters\<close>

lemma counters_inv_init: "counters_inv init"
  by (simp add: counters_inv_def init_def)

lemma counters_inv_start: "counters_inv s \<Longrightarrow> counters_inv (start body s)"
  by (simp add: counters_inv_def start_def fillQueue_def record_call_def Let_def)

lemma counters_inv_stop: "counters_inv s \<Longrightarrow> counters_inv (stop s)"
  by (simp add: counters_inv_def stop_def)

lemma counters_inv_api: "counters_inv s \<Longrightarrow> counters_inv (api c s)"
  by (simp add: counters_inv_def)

lemma counters_inv_reset:
  assumes "counters_inv s" "resetProgress s = Inr s1"
  shows "counters_inv s1"
proof -
  from assms(2) have s1: "s1 = s\<lparr>progressDone := 0, progressTotal := 0, progressErrors := 0,
                    queueFilled := False, queue := pq_clear (queue s),
                    cancel := cancel s + 1\<rparr>"
    by (simp add: resetProgress_def split: if_splits)
  from assms(1) have "\<forall>r\<in>set (inflight s). token r \<noteq> cancel s + 1"
    by (auto simp: counters_inv_def)
  then have "filter (\<lambda>r. token r = cancel s + 1) (inflight s) = []"
       "filter (\<lambda>r. token r = cancel s + 1 \<and> phase r = AwaitFinally) (inflight s) = []"
    by (simp_all add: filter_none)
  with assms(1) show ?thesis
    by (auto simp: s1 counters_inv_def record_call_def pq_clear_def)
qed

lemma counters_inv_fire:
  "counters_inv s \<Longrightarrow> counters_inv (timerCallback (s\<lparr>timers := ts\<rparr>))"
  by (auto simp: counters_inv_def timerCallback_def processQueue_def
      dest: pq_pop_length split: option.splits)

lemma counters_inv_respond:
  assumes "counters_inv s" "in_phase s i AwaitResponse"
    and "s1 = state_of (settle (act (inflight s ! i)) (token (inflight s ! i)) r s)"
    and "ph \<noteq> AwaitResponse"
  shows "counters_inv (set_phase i ph s1)"
proof -
  let ?t = "inflight s ! i"
  have i: "i < length (inflight s)" and p: "phase ?t = AwaitResponse"
    using assms(2) by (simp_all add: in_phase_def)
  have a: "length (filter (\<lambda>r. token r = cancel s) ((inflight s)[i := ?t\<lparr>phase := ph\<rparr>]))
        = length (filter (\<lambda>r. token r = cancel s) (inflight s))"
    using filter_update_count [OF i, of "\<lambda>r. token r = cancel s" "?t\<lparr>phase := ph\<rparr>"] by simp
  have b: "length (filter (\<lambda>r. token r = cancel s \<and> phase r = AwaitFinally) (inflight s))
        \<le> length (filter (\<lambda>r. token r = cancel s \<and> phase r = AwaitFinally)
             ((inflight s)[i := ?t\<lparr>phase := ph\<rparr>]))"
    using filter_update_count [OF i, of "\<lambda>r. token r = cancel s \<and> phase r = AwaitFinally"
        "?t\<lparr>phase := ph\<rparr>"] p by (simp split: if_splits)
  have c: "\<forall>r\<in>set ((inflight s)[i := ?t\<lparr>phase := ph\<rparr>]). token r \<le> cancel s"
    using assms(1) i by (auto simp: counters_inv_def dest!: set_update_subset_insert [THEN subsetD])
  show ?thesis
    using assms(1) a b c settle_total [of "act ?t" "token ?t" r s]
    by (simp add: counters_inv_def assms(3))
qed

lemma counters_inv_catch:
  assumes "counters_inv s" "in_phase s i AwaitCatch"
  shows "counters_inv (set_phase i AwaitFinally (catchHandler (token (inflight s ! i)) s))"
proof -
  let ?t = "inflight s ! i"
  have i: "i < length (inflight s)" and p: "phase ?t = AwaitCatch"
    using assms(2) by (simp_all add: in_phase_def)
  have a: "length (filter (\<lambda>r. token r = cancel s) ((inflight s)[i := ?t\<lparr>phase := AwaitFinally\<rparr>]))
        = length (filter (\<lambda>r. token r = cancel s) (inflight s))"
    using filter_update_count [OF i, of "\<lambda>r. token r = cancel s" "?t\<lparr>phase := AwaitFinally\<rparr>"]
    by simp
  have b: "length (filter (\<lambda>r. token r = cancel s \<and> phase r = AwaitFinally)
             ((inflight s)[i := ?t\<lparr>phase := AwaitFinally\<rparr>]))
        = length (filter (\<lambda>r. token r = cancel s \<and> phase r = AwaitFinally) (inflight s))
          + (if cancel s = token ?t then 1 else 0)"
    using filter_update_count [OF i, of "\<lambda>r. token r = cancel s \<and> phase r = AwaitFinally"
        "?t\<lparr>phase := AwaitFinally\<rparr>"] p by (auto split: if_splits)
  have c: "\<forall>r\<in>set ((inflight s)[i := ?t\<lparr>phase := AwaitFinally\<rparr>]). token r \<le> cancel s"
    using assms(1) i by (auto simp: counters_inv_def dest!: set_update_subset_insert [THEN subsetD])
  show ?thesis
    using assms(1) a b c by (simp add: counters_inv_def)
qed

lemma counters_inv_finally:
  assumes "counters_inv s" "in_phase s i AwaitFinally"
  shows "counters_inv (drop_task i (finallyHandler (token (inflight s ! i)) s))"
proof -
  let ?t = "inflight s ! i"
  let ?rest = "take i (inflight s) @ drop (Suc i) (inflight s)"
  have i: "i < length (inflight s)" and p: "phase ?t = AwaitFinally"
    using assms(2) by (simp_all add: in_phase_def)
  have a: "length (filter (\<lambda>r. token r = cancel s) ?rest) + (if cancel s = token ?t then 1 else 0)
        = length (filter (\<lambda>r. token r = cancel s) (inflight s))"
    using filter_remove_count [OF i, of "\<lambda>r. token r = cancel s"] by (auto split: if_splits)
  have b: "length (filter (\<lambda>r. token r = cancel s \<and> phase r = AwaitFinally) ?rest)
          + (if cancel s = token ?t then 1 else 0)
        = length (filter (\<lambda>r. token r = cancel s \<and> phase r = AwaitFinally) (inflight s))"
    using filter_remove_count [OF i, of "\<lambda>r. token r = cancel s \<and> phase r = AwaitFinally"] p
    by (auto split: if_splits)
  have c: "\<forall>r\<in>set ?rest. token r \<le> cancel s"
    using assms(1) by (auto simp: counters_inv_def dest: in_set_takeD in_set_dropD)
  show ?thesis
    using assms(1) a b c by (simp add: counters_inv_def)
qed

lemma counters_inv_step:
  assumes "counters_inv s" "step e s = Some s1"
  shows "counters_inv s1"
proof (cases e)
  case (Start body)
  with assms show ?thesis by (auto simp: counters_inv_start)
next
  case Stop
  with assms show ?thesis by (auto simp: counters_inv_stop)
next
  case ResetProgress
  with assms show ?thesis by (auto split: sum.splits dest: counters_inv_reset)
next
  case (Api c)
  with assms show ?thesis by (auto simp: counters_inv_api)
next
  case (Fire t)
  with assms show ?thesis by (auto simp: counters_inv_fire split: if_splits)
next
  case (Respond i r)
  show ?thesis
  proof (cases "settle (act (inflight s ! i)) (token (inflight s ! i)) r s")
    case (Returns s2)
    with assms Respond have "in_phase s i AwaitResponse" "s1 = set_phase i AwaitFinally s2"
      by (auto split: if_splits)
    with Returns counters_inv_respond [OF assms(1) this(1), of s2 r AwaitFinally]
    show ?thesis by simp
  next
    case (Throws x s2)
    with assms Respond have "in_phase s i AwaitResponse" "s1 = set_phase i AwaitCatch s2"
      by (auto split: if_splits)
    with Throws counters_inv_respond [OF assms(1) this(1), of s2 r AwaitCatch]
    show ?thesis by simp
  qed
next
  case (Catch i)
  with assms show ?thesis by (auto simp: counters_inv_catch split: if_splits)
next
  case (Finally i)
  with assms show ?thesis by (auto simp: counters_inv_finally split: if_splits)
qed

lemma counters_inv_exec:
  assumes "exec es init = Some s"
  shows "counters_inv s"
  by (rule exec_invariant [of counters_inv, OF _ counters_inv_init assms]) (rule counters_inv_step)

subsection \<open>The dispatched counter\<close>








subsection \<open>The pacer\<close>

lemma settle_pacer_inv: "pacer_inv s \<Longrightarrow> pacer_inv (state_of (settle a tok r s))"
  by (cases a; cases r;
      simp add: pacer_inv_def requestThen_def handlePagedResponse_def pagedCatch_def call_handler_def
        record_call_def enqueue_timeout split: sum.splits option.splits)

lemma set_phase_pacer_inv: "pacer_inv (set_phase i ph s) = pacer_inv s"
  by (simp add: pacer_inv_def)

lemma start_pacer_inv: "pacer_inv s \<Longrightarrow> pacer_inv (start body s)"
proof (cases "started s")
  case True
  then show "pacer_inv s \<Longrightarrow> pacer_inv (start body s)" by (simp add: start_def)
next
  case False
  then show "pacer_inv (start body s)"
    using start_armed [of s body] by (simp add: pacer_inv_def)
qed

lemma pacer_inv_step:
  assumes "pacer_inv s" "step e s = Some s1"
  shows "pacer_inv s1"
proof (cases e)
  case (Start body)
  with assms show ?thesis by (auto simp: start_pacer_inv)
next
  case Stop
  have "pacer_inv (stop s)" using assms(1) by (simp add: stop_def pacer_inv_def)
  with assms Stop show ?thesis by simp
next
  case ResetProgress
  with assms show ?thesis
    by (auto simp: resetProgress_def pacer_inv_def record_call_def pq_clear_def split: if_splits)
next
  case (Api c)
  with assms show ?thesis by (auto simp: pacer_inv_def api_timeout split: if_splits)
next
  case (Fire t)
  with assms show ?thesis
    by (auto simp: pacer_inv_def timerCallback_def processQueue_def pq_pop_None
        split: if_splits option.splits)
next
  case (Respond i r)
  with assms(2) have "step (Respond i r) s = Some s1" by simp
  then obtain ph where
    "s1 = set_phase i ph (state_of (settle (act (inflight s ! i)) (token (inflight s ! i)) r s))"
    by (rule step_respond)
  with assms(1) show ?thesis by (simp add: set_phase_pacer_inv settle_pacer_inv)
next
  case (Catch i)
  with assms show ?thesis by (auto simp: pacer_inv_def split: if_splits)
next
  case (Finally i)
  with assms show ?thesis by (auto simp: pacer_inv_def split: if_splits)
qed

lemma pacer_inv_exec:
  assumes "exec es init = Some s"
  shows "pacer_inv s"
proof -
  have i: "pacer_inv init" by (simp add: pacer_inv_def init_def)
  show ?thesis
    by (rule exec_invariant [of pacer_inv, OF _ i assms]) (rule pacer_inv_step)
qed

subsection \<open>The timers of the browser\<close>

lemma timers_inv_cong:
  assumes "timers s1 = timers s" "timeout s1 = timeout s" "nextTimer s1 = nextTimer s"
  shows "timers_inv s1 = timers_inv s"
  by (simp add: timers_inv_def assms)

lemma timers_inv_ensureTimeout: "timers_inv s \<Longrightarrow> timers_inv (ensureTimeout s)"
  by (auto simp: timers_inv_def ensureTimeout_def split: option.splits)

lemma timers_inv_discardTimeout: "timers_inv s \<Longrightarrow> timers_inv (discardTimeout s)"
  by (auto simp: timers_inv_def discardTimeout_def split: option.splits)

lemma timers_inv_enqueue: "timers_inv s \<Longrightarrow> timers_inv (enqueue prio f s)"
proof -
  assume inv: "timers_inv s"
  let ?s4 = "record_call CallUpdateProgressLazy
      ((record_call CallEnqueue s)
         \<lparr>progressTotal := progressTotal (record_call CallEnqueue s) + 1,
          queue := pq_push \<lparr>priority = prio, fn = f\<rparr> (queue (record_call CallEnqueue s))\<rparr>)"
  have "timers_inv ?s4 = timers_inv s"
    by (rule timers_inv_cong) (simp_all add: record_call_def)
  with inv have "timers_inv ?s4" by simp
  then have "timers_inv (ensureTimeout ?s4)" by (rule timers_inv_ensureTimeout)
  with \<open>timers_inv ?s4\<close> show ?thesis
    by (simp add: enqueue_def Let_def)
qed

lemma timers_inv_api: "timers_inv s \<Longrightarrow> timers_inv (api c s)"
proof (cases c)
  case (EnqueueRequest prio request h)
  assume "timers_inv s"
  moreover have "timers_inv (s\<lparr>nextPromise := nextPromise s + 1\<rparr>) = timers_inv s"
    by (rule timers_inv_cong) simp_all
  ultimately show ?thesis
    by (simp add: EnqueueRequest enqueueRequest_def Let_def timers_inv_enqueue)
next
  case (EnqueuePagedRequest prio request h)
  assume "timers_inv s"
  moreover have "timers_inv (s\<lparr>nextPromise := nextPromise s + 1\<rparr>) = timers_inv s"
    by (rule timers_inv_cong) simp_all
  ultimately show ?thesis
    by (simp add: EnqueuePagedRequest enqueuePagedRequest_def Let_def timers_inv_enqueue)
qed

lemma timers_inv_fold_api: "timers_inv s \<Longrightarrow> timers_inv (fold api body s)"
  by (induction body arbitrary: s) (simp_all add: timers_inv_api)

lemma timers_inv_start: "timers_inv s \<Longrightarrow> timers_inv (start body s)"
proof -
  assume inv: "timers_inv s"
  have "timers_inv (s\<lparr>started := True\<rparr>) = timers_inv s"
    by (rule timers_inv_cong) simp_all
  with inv have a: "timers_inv (ensureTimeout (s\<lparr>started := True\<rparr>))"
    by (simp add: timers_inv_ensureTimeout)
  have "timers_inv (record_call CallFillQueue
          ((ensureTimeout (s\<lparr>started := True\<rparr>))\<lparr>queueFilled := True\<rparr>))
        = timers_inv (ensureTimeout (s\<lparr>started := True\<rparr>))"
    by (rule timers_inv_cong) (simp_all add: record_call_def)
  with a have "timers_inv (fold api body (record_call CallFillQueue
          ((ensureTimeout (s\<lparr>started := True\<rparr>))\<lparr>queueFilled := True\<rparr>)))"
    by (simp add: timers_inv_fold_api)
  with inv a show ?thesis
    by (simp add: start_def fillQueue_def Let_def)
qed

lemma timers_inv_stop: "timers_inv s \<Longrightarrow> timers_inv (stop s)"
proof -
  assume inv: "timers_inv s"
  have "timers_inv (s\<lparr>started := False\<rparr>) = timers_inv s"
    by (rule timers_inv_cong) simp_all
  with inv have "timers_inv (discardTimeout (s\<lparr>started := False\<rparr>))"
    by (simp add: timers_inv_discardTimeout)
  with inv show ?thesis by (simp add: stop_def)
qed

lemma timers_inv_reset:
  assumes "timers_inv s" "resetProgress s = Inr s1"
  shows "timers_inv s1"
proof -
  from assms(2) have "timers s1 = timers s" "timeout s1 = timeout s" "nextTimer s1 = nextTimer s"
    by (auto simp: resetProgress_def record_call_def split: if_splits)
  then have "timers_inv s1 = timers_inv s" by (rule timers_inv_cong)
  with assms(1) show ?thesis by simp
qed

lemma timers_inv_fire:
  assumes "timers_inv s" "t \<in> set (timers s)"
  shows "timers_inv (timerCallback (s\<lparr>timers := removeAll t (timers s)\<rparr>))"
proof -
  from assms have "timers s = [t]"
    by (auto simp: timers_inv_def split: option.splits)
  then show ?thesis
    by (simp add: timers_inv_def timerCallback_def)
qed

lemma timers_inv_settle: "timers_inv s \<Longrightarrow> timers_inv (state_of (settle a tok r s))"
proof -
  assume inv: "timers_inv s"
  have rc: "timers_inv (record_call c s1) = timers_inv s1" for c s1
    by (rule timers_inv_cong) (simp_all add: record_call_def)
  have rj: "timers_inv (reject p v s1) = timers_inv s1" for p v s1
    by (rule timers_inv_cong) simp_all
  have rs: "timers_inv (resolve p v s1) = timers_inv s1" for p v s1
    by (rule timers_inv_cong) simp_all
  from inv show ?thesis
    by (cases a; cases r;
        simp add: requestThen_def handlePagedResponse_def pagedCatch_def call_handler_def
          rc rj rs timers_inv_enqueue split: sum.splits option.splits)
qed

lemma timers_inv_step:
  assumes "timers_inv s" "step e s = Some s1"
  shows "timers_inv s1"
proof (cases e)
  case (Start body)
  with assms show ?thesis by (auto simp: timers_inv_start)
next
  case Stop
  with assms show ?thesis by (auto simp: timers_inv_stop)
next
  case ResetProgress
  with assms show ?thesis by (auto split: sum.splits dest: timers_inv_reset)
next
  case (Api c)
  with assms show ?thesis by (auto simp: timers_inv_api)
next
  case (Fire t)
  with assms show ?thesis by (auto simp: timers_inv_fire split: if_splits)
next
  case (Respond i r)
  with assms(2) have "step (Respond i r) s = Some s1" by simp
  then obtain ph where
    s1: "s1 = set_phase i ph (state_of (settle (act (inflight s ! i)) (token (inflight s ! i)) r s))"
    by (rule step_respond)
  have "timers_inv s1
      = timers_inv (state_of (settle (act (inflight s ! i)) (token (inflight s ! i)) r s))"
    unfolding s1 by (rule timers_inv_cong) simp_all
  with assms(1) show ?thesis by (simp add: timers_inv_settle)
next
  case (Catch i)
  have "timers_inv (set_phase i AwaitFinally (catchHandler (token (inflight s ! i)) s))
      = timers_inv s"
    by (rule timers_inv_cong) simp_all
  with assms Catch show ?thesis by (auto split: if_splits)
next
  case (Finally i)
  let ?tok = "token (inflight s ! i)"
  let ?s3 = "record_call CallUpdateProgressLazy
      ((if \<not> cancelled s ?tok then s\<lparr>progressDone := progressDone s + 1\<rparr> else s)
         \<lparr>processing := False\<rparr>)"
  have "timers_inv ?s3 = timers_inv s"
    by (rule timers_inv_cong) (simp_all add: record_call_def)
  with assms(1) have "timers_inv (ensureTimeout ?s3)"
    by (simp add: timers_inv_ensureTimeout)
  then have "timers_inv (finallyHandler ?tok s)"
    by (simp add: finallyHandler_def Let_def)
  moreover have "timers_inv (drop_task i (finallyHandler ?tok s))
      = timers_inv (finallyHandler ?tok s)"
    by (rule timers_inv_cong) (simp_all add: finallyHandler_def Let_def record_call_def ensureTimeout_def)
  ultimately show ?thesis using assms Finally by (auto split: if_splits)
qed

lemma timers_inv_exec:
  assumes "exec es init = Some s"
  shows "timers_inv s"
proof -
  have i: "timers_inv init" by (simp add: timers_inv_def init_def)
  show ?thesis
    by (rule exec_invariant [of timers_inv, OF _ i assms]) (rule timers_inv_step)
qed

subsection \<open>The promises\<close>

lemma holders_api:
  "holders (api c s) p = holders s p + (if p = nextPromise s then 1 else 0)"
  by (cases c) (auto simp: holders_def enqueueRequest_def enqueuePagedRequest_def Let_def)

lemma promise_inv_api: "promise_inv s \<Longrightarrow> promise_inv (api c s)"
  unfolding promise_inv_def
proof (intro allI)
  fix p
  assume inv: "\<forall>p. holders s p \<le> 1 \<and> (0 < holders s p \<longrightarrow> p < nextPromise s)
        \<and> (0 < holders s p \<or> nextPromise s \<le> p \<longrightarrow> promises s p = Pending)"
  from inv have "holders s (nextPromise s) = 0" by (metis less_irrefl not_gr_zero)
  with inv [rule_format, of p]
  show "holders (api c s) p \<le> 1 \<and> (0 < holders (api c s) p \<longrightarrow> p < nextPromise (api c s))
        \<and> (0 < holders (api c s) p \<or> nextPromise (api c s) \<le> p \<longrightarrow> promises (api c s) p = Pending)"
    by (auto simp: holders_api)
qed

lemma promise_inv_fold_api: "promise_inv s \<Longrightarrow> promise_inv (fold api body s)"
  by (induction body arbitrary: s) (simp_all add: promise_inv_api)

lemma promise_inv_cong:
  assumes "queue s1 = queue s" "inflight s1 = inflight s" "promises s1 = promises s"
    "nextPromise s1 = nextPromise s"
  shows "promise_inv s1 = promise_inv s"
  by (simp add: promise_inv_def holders_def assms)

lemma promise_inv_start: "promise_inv s \<Longrightarrow> promise_inv (start body s)"
proof -
  assume inv: "promise_inv s"
  have "promise_inv (record_call CallFillQueue
          ((ensureTimeout (s\<lparr>started := True\<rparr>))\<lparr>queueFilled := True\<rparr>)) = promise_inv s"
    by (rule promise_inv_cong) (simp_all add: record_call_def ensureTimeout_def)
  moreover have "promise_inv (ensureTimeout (s\<lparr>started := True\<rparr>)) = promise_inv s"
    by (rule promise_inv_cong) (simp_all add: ensureTimeout_def)
  ultimately show ?thesis
    using inv by (simp add: start_def fillQueue_def Let_def promise_inv_fold_api)
qed

lemma promise_inv_stop: "promise_inv s \<Longrightarrow> promise_inv (stop s)"
proof -
  have "promise_inv (discardTimeout (s\<lparr>started := False\<rparr>)) = promise_inv s"
    by (rule promise_inv_cong) (simp_all add: discardTimeout_def split: option.splits)
  then show "promise_inv s \<Longrightarrow> promise_inv (stop s)"
    by (simp add: stop_def)
qed

lemma promise_inv_reset:
  assumes "promise_inv s" "resetProgress s = Inr s1"
  shows "promise_inv s1"
proof -
  from assms(2) have q: "queue s1 = []" "inflight s1 = inflight s" "promises s1 = promises s"
    "nextPromise s1 = nextPromise s"
    by (auto simp: resetProgress_def record_call_def pq_clear_def split: if_splits)
  have "holders s1 p \<le> holders s p" for p
    by (simp add: holders_def q)
  with assms(1) show ?thesis
    unfolding promise_inv_def q
    by (metis (no_types, opaque_lifting) le_trans not_gr_zero le_zero_eq)
qed

lemma promise_inv_fire:
  assumes "promise_inv s"
  shows "promise_inv (timerCallback (s\<lparr>timers := ts\<rparr>))"
proof (cases "pq_pop (queue s)")
  case None
  then have "timerCallback (s\<lparr>timers := ts\<rparr>) = s\<lparr>timers := ts, timeout := None\<rparr>"
    by (simp add: timerCallback_def processQueue_def)
  moreover have "promise_inv (s\<lparr>timers := ts, timeout := None\<rparr>) = promise_inv s"
    by (rule promise_inv_cong) simp_all
  ultimately show ?thesis using assms by simp
next
  case (Some a)
  obtain x rest where a: "a = (x, rest)" by (cases a)
  let ?s1 = "timerCallback (s\<lparr>timers := ts\<rparr>)"
  have s1: "queue ?s1 = rest"
    "inflight ?s1 = inflight s @ [\<lparr>token = cancel s, act = fn x, phase = AwaitResponse\<rparr>]"
    "promises ?s1 = promises s" "nextPromise ?s1 = nextPromise s"
    using Some a by (simp_all add: timerCallback_def processQueue_def)
  have "holders ?s1 p = holders s p" for p
    using pq_pop_filter [of "queue s" x rest "\<lambda>x. promise_of (fn x) = p"] Some a
    by (simp add: holders_def s1)
  with assms show ?thesis
    by (simp add: promise_inv_def s1)
qed

lemma awaiting_update:
  assumes "i < length xs" "phase (xs ! i) = AwaitResponse" "ph \<noteq> AwaitResponse"
  shows "length (filter (\<lambda>t. phase t = AwaitResponse \<and> promise_of (act t) = p)
            (xs[i := (xs ! i)\<lparr>phase := ph\<rparr>]))
          + (if promise_of (act (xs ! i)) = p then 1 else 0)
         = length (filter (\<lambda>t. phase t = AwaitResponse \<and> promise_of (act t) = p) xs)"
  using filter_update_count [OF assms(1),
      of "\<lambda>t. phase t = AwaitResponse \<and> promise_of (act t) = p" "(xs ! i)\<lparr>phase := ph\<rparr>"] assms(2,3)
  by (simp split: if_splits)

lemma promise_inv_respond:
  assumes inv: "promise_inv s" and ph: "in_phase s i AwaitResponse" "ph \<noteq> AwaitResponse"
    and s1: "s1 = state_of (settle (act (inflight s ! i)) (token (inflight s ! i)) r s)"
  shows "promise_inv (set_phase i ph s1)"
proof -
  let ?t = "inflight s ! i"
  let ?p0 = "promise_of (act ?t)"
  let ?s2 = "set_phase i ph s1"
  have i: "i < length (inflight s)" and p: "phase ?t = AwaitResponse"
    using ph(1) by (simp_all add: in_phase_def)
  have fr: "inflight s1 = inflight s" "nextPromise s1 = nextPromise s"
    by (simp_all add: s1)
  have aw: "length (filter (\<lambda>t. phase t = AwaitResponse \<and> promise_of (act t) = q)
              ((inflight s)[i := ?t\<lparr>phase := ph\<rparr>]))
            + (if ?p0 = q then 1 else 0)
          = length (filter (\<lambda>t. phase t = AwaitResponse \<and> promise_of (act t) = q) (inflight s))"
    for q
    by (rule awaiting_update [OF i p ph(2)])
  from settle_cases [of "act ?t" "token ?t" r s]
  consider (keep) "queue s1 = queue s" "\<forall>q. q \<noteq> ?p0 \<longrightarrow> promises s1 q = promises s q"
    | (cont) item where "queue s1 = queue s @ [item]" "promise_of (fn item) = ?p0"
        "promises s1 = promises s"
    unfolding s1 by blast
  then show ?thesis
  proof cases
    case keep
    have h: "holders ?s2 q + (if ?p0 = q then 1 else 0) = holders s q" for q
      using aw [of q] by (simp add: holders_def keep(1) fr)
    show ?thesis
      unfolding promise_inv_def
    proof (intro allI)
      fix q
      from inv have a: "holders s q \<le> 1" "0 < holders s q \<longrightarrow> q < nextPromise s"
        "0 < holders s q \<or> nextPromise s \<le> q \<longrightarrow> promises s q = Pending"
        by (simp_all add: promise_inv_def)
      from inv have b: "holders s ?p0 \<le> 1" "0 < holders s ?p0 \<longrightarrow> ?p0 < nextPromise s"
        by (simp_all add: promise_inv_def)
      have c: "0 < holders s ?p0" using h [of ?p0] by simp
      show "holders ?s2 q \<le> 1 \<and> (0 < holders ?s2 q \<longrightarrow> q < nextPromise ?s2)
          \<and> (0 < holders ?s2 q \<or> nextPromise ?s2 \<le> q \<longrightarrow> promises ?s2 q = Pending)"
      proof (cases "q = ?p0")
        case True
        with h [of q] b c have "holders ?s2 q = 0" by simp
        with True b c show ?thesis by (simp add: fr)
      next
        case False
        with h [of q] have "holders ?s2 q = holders s q" by simp
        with a keep(2) False show ?thesis by (simp add: fr)
      qed
    qed
  next
    case cont
    have h: "holders ?s2 q = holders s q" for q
      using aw [of q] by (cases "?p0 = q") (simp_all add: holders_def cont fr)
    with inv show ?thesis
      by (simp add: promise_inv_def cont fr)
  qed
qed

lemma promise_inv_catch:
  assumes "promise_inv s" "in_phase s i AwaitCatch"
  shows "promise_inv (set_phase i AwaitFinally (catchHandler tok s))"
proof -
  let ?s1 = "set_phase i AwaitFinally (catchHandler tok s)"
  have i: "i < length (inflight s)" and p: "phase (inflight s ! i) = AwaitCatch"
    using assms(2) by (simp_all add: in_phase_def)
  have "holders ?s1 q = holders s q" for q
    using filter_update_count [OF i,
        of "\<lambda>t. phase t = AwaitResponse \<and> promise_of (act t) = q"
           "(inflight s ! i)\<lparr>phase := AwaitFinally\<rparr>"] p
    by (simp add: holders_def)
  with assms(1) show ?thesis by (simp add: promise_inv_def)
qed

lemma promise_inv_finally:
  assumes "promise_inv s" "in_phase s i AwaitFinally"
  shows "promise_inv (drop_task i (finallyHandler tok s))"
proof -
  let ?s1 = "drop_task i (finallyHandler tok s)"
  have i: "i < length (inflight s)" and p: "phase (inflight s ! i) = AwaitFinally"
    using assms(2) by (simp_all add: in_phase_def)
  have "holders ?s1 q = holders s q" for q
    using filter_remove_count [OF i,
        of "\<lambda>t. phase t = AwaitResponse \<and> promise_of (act t) = q"] p
    by (simp add: holders_def)
  with assms(1) show ?thesis by (simp add: promise_inv_def)
qed

lemma promise_inv_step:
  assumes "promise_inv s" "step e s = Some s1"
  shows "promise_inv s1"
proof (cases e)
  case (Start body)
  with assms show ?thesis by (auto simp: promise_inv_start)
next
  case Stop
  with assms show ?thesis by (auto simp: promise_inv_stop)
next
  case ResetProgress
  with assms show ?thesis by (auto split: sum.splits dest: promise_inv_reset)
next
  case (Api c)
  with assms show ?thesis by (auto simp: promise_inv_api)
next
  case (Fire t)
  with assms show ?thesis by (auto simp: promise_inv_fire split: if_splits)
next
  case (Respond i r)
  with assms(2) have "step (Respond i r) s = Some s1" by simp
  then obtain ph where "in_phase s i AwaitResponse" "ph \<noteq> AwaitResponse"
    "s1 = set_phase i ph (state_of (settle (act (inflight s ! i)) (token (inflight s ! i)) r s))"
    by (rule step_respond)
  with assms(1) show ?thesis by (simp add: promise_inv_respond)
next
  case (Catch i)
  with assms show ?thesis by (auto simp: promise_inv_catch split: if_splits)
next
  case (Finally i)
  with assms show ?thesis by (auto simp: promise_inv_finally split: if_splits)
qed

lemma promise_inv_exec:
  assumes "exec es init = Some s"
  shows "promise_inv s"
proof -
  have i: "promise_inv init" by (simp add: promise_inv_def holders_def init_def)
  show ?thesis
    by (rule exec_invariant [of promise_inv, OF _ i assms]) (rule promise_inv_step)
qed

lemma awaiting_pending:
  assumes "promise_inv s" "in_phase s i AwaitResponse"
  shows "promises s (promise_of (act (inflight s ! i))) = Pending"
proof -
  let ?P = "\<lambda>t. phase t = AwaitResponse \<and> promise_of (act t) = promise_of (act (inflight s ! i))"
  have "inflight s ! i \<in> set (inflight s)" "?P (inflight s ! i)"
    using assms(2) by (simp_all add: in_phase_def)
  then have "filter ?P (inflight s) \<noteq> []"
    by (auto simp: filter_empty_conv)
  then have "0 < holders s (promise_of (act (inflight s ! i)))"
    by (simp add: holders_def)
  with assms(1) show ?thesis by (simp add: promise_inv_def)
qed

section \<open>The properties of the specification\<close>

subsection \<open>The progress counters\<close>

text \<open>
  C1. The specification states that the completed counter plus the failed counter never exceeds the
  dispatched counter. The \<open>finally\<close> callback counts every task of the current epoch as
  done, also one whose \<open>catch\<close> callback has just counted it as failed, so the sum
  can exceed the dispatched counter. What holds after every run: each of the two counters
  alone is at most the dispatched counter.
\<close>

theorem progress_counters_bounded:
  "exec es init = Some s \<Longrightarrow> progressDone s \<le> progressTotal s \<and> progressErrors s \<le> progressTotal s"
proof -
  assume "exec es init = Some s"
  then have inv: "counters_inv s" by (rule counters_inv_exec)
  have "length (filter (\<lambda>r. token r = cancel s \<and> phase r = AwaitFinally) (inflight s))
      \<le> length (filter (\<lambda>r. token r = cancel s) (inflight s))"
    by (rule filter_le)
  with inv show ?thesis by (simp add: counters_inv_def)
qed

text \<open>
  The bound at a run that stops between the two callbacks of a rejected task: the failure
  is counted, the task is not yet counted as done.
\<close>

theorem progress_counters_bounded_witness:
  "\<exists>s. exec [Api (EnqueueRequest 1 0 ok_handler), Start [], Fire 1,
             Respond 0 (Fails (JObject 0)), Catch 0] init = Some s
     \<and> progressDone s = 0 \<and> progressErrors s = 1 \<and> progressTotal s = 1
     \<and> progressDone s \<le> progressTotal s \<and> progressErrors s \<le> progressTotal s"
proof -
  let ?es = "[Api (EnqueueRequest 1 0 ok_handler), Start [], Fire 1,
              Respond 0 (Fails (JObject 0)), Catch 0]"
  obtain s where s: "exec ?es init = Some s" by (simp add: ev)
  have v: "progressDone s = 0" "progressErrors s = 1" "progressTotal s = 1"
    using s by (auto simp: ev)
  from progress_counters_bounded [OF s] s v show ?thesis by blast
qed

text \<open>
  One request is enqueued, the worker is started, the timer fires, the request fails and
  both callbacks run: one task dispatched, one done, one failed.
\<close>

theorem progress_sum_exceeds_dispatched:
  "map_option (\<lambda>s. (progressDone s, progressErrors s, progressTotal s))
     (exec [Api (EnqueueRequest 1 0 ok_handler), Start [], Fire 1,
            Respond 0 (Fails (JObject 0)), Catch 0, Finally 0] init)
   = Some (1, 1, 1)"
  by (simp add: ev)

subsection \<open>One task at a time\<close>

text \<open>
  C2. The specification states that no two tasks of a worker are in flight together. \<open>processQueue\<close>
  does not look at \<open>processing\<close>, and \<open>enqueue\<close> arms the timer of a started worker
  also while a task is in flight. In the run below the worker is started, a request is
  enqueued and admitted by timer 1, a second request is enqueued, which arms timer 2, and
  timer 2 admits it: both tasks wait for their responses.
\<close>

theorem two_tasks_in_flight:
  "map_option (\<lambda>s. (map phase (inflight s), processing s, timers s))
     (exec [Start [], Api (EnqueueRequest 1 0 ok_handler), Fire 1,
            Api (EnqueueRequest 1 1 ok_handler), Fire 2] init)
   = Some ([AwaitResponse, AwaitResponse], True, [])"
  by (simp add: ev)

text \<open>
  The flag \<open>processing\<close> is a single boolean: when the first of the two tasks is through
  its \<open>finally\<close> callback the worker reports \<open>finished\<close> although the second one still
  waits for its response.
\<close>

lemma finished_with_task_in_flight:
  "map_option (\<lambda>s. (map phase (inflight s), finished s))
     (exec [Start [], Api (EnqueueRequest 1 0 ok_handler), Fire 1,
            Api (EnqueueRequest 1 1 ok_handler), Fire 2,
            Respond 0 (Succeeds \<lparr>payload = 0, hasNextPage = False, nextPage = None\<rparr>),
            Finally 0, Fire 3] init)
   = Some ([AwaitResponse], True)"
  by (simp add: ev ok_handler_def)

text \<open>
  The pacing itself is as specified: the browser holds at most one timer of the
  worker, the one of the handle, and a firing timer admits at most one task and leaves no
  timer armed.
\<close>

lemma single_timer:
  assumes "exec es init = Some s"
  shows "timers s = (case timeout s of None \<Rightarrow> [] | Some t \<Rightarrow> [t])"
  using timers_inv_exec [OF assms] by (simp add: timers_inv_def)

lemma fire_admits_at_most_one:
  assumes "exec es init = Some s" "step (Fire t) s = Some s1"
  shows "length (inflight s1) \<le> length (inflight s) + 1 \<and> timeout s1 = None \<and> timers s1 = []"
proof -
  from assms(2) have t: "t \<in> set (timers s)"
    and s1: "s1 = timerCallback (s\<lparr>timers := removeAll t (timers s)\<rparr>)"
    by (auto split: if_splits)
  from t single_timer [OF assms(1)] have "timers s = [t]"
    by (auto split: option.splits)
  then show ?thesis
    by (auto simp: s1 timerCallback_def processQueue_def split: option.splits)
qed

subsection \<open>When the pacer is armed\<close>

text \<open>
  C3. The specification states that the pacer handle is armed exactly when the worker is started and
  its queue is not empty, a task in progress apart. \<open>start\<close> and the \<open>finally\<close>
  callback arm the pacer without looking at the queue, so the handle is also armed over an
  empty queue. What holds after every run is one direction: a started worker with a
  non-empty queue has its pacer armed or a task in progress.
\<close>

theorem pacer_armed_or_processing:
  assumes "exec es init = Some s"
  shows "started s \<and> queue s \<noteq> [] \<longrightarrow> timeout s \<noteq> None \<or> processing s"
  using pacer_inv_exec [OF assms] by (simp add: pacer_inv_def)

text \<open>
  The run: after the first of two queued tasks is admitted the worker is started, one item
  is queued, the handle is empty and a task is in progress.
\<close>

theorem pacer_armed_or_processing_witness:
  "\<exists>s. exec [Start [], Api (EnqueueRequest 1 0 ok_handler),
             Api (EnqueueRequest 2 1 ok_handler), Fire 1] init = Some s
     \<and> started s \<and> length (queue s) = 1 \<and> timeout s = None
     \<and> (timeout s \<noteq> None \<or> processing s)"
proof -
  let ?es = "[Start [], Api (EnqueueRequest 1 0 ok_handler),
              Api (EnqueueRequest 2 1 ok_handler), Fire 1]"
  obtain s where s: "exec ?es init = Some s" by (simp add: ev)
  have v: "started s" "length (queue s) = 1" "timeout s = None"
    using s by (auto simp: ev)
  then have "queue s \<noteq> []" by auto
  with pacer_armed_or_processing [OF s] s v show ?thesis by blast
qed

text \<open>
  The handle is armed, the queue is empty and no task is in progress: right after
  \<open>start\<close>, and again after the only task has run to its end.
\<close>

theorem pacer_armed_with_empty_queue:
  "map_option (\<lambda>s. (timeout s, started s, queue s, processing s)) (exec [Start []] init)
     = Some (Some 1, True, [], False)
   \<and> map_option (\<lambda>s. (timeout s, started s, queue s, processing s))
       (exec [Api (EnqueueRequest 1 0 ok_handler), Start [], Fire 1,
              Respond 0 (Succeeds \<lparr>payload = 0, hasNextPage = False, nextPage = None\<rparr>),
              Finally 0] init)
     = Some (Some 2, True, [], False)"
  by (simp add: ev ok_handler_def)

text \<open>
  The \<open>finally\<close> callback also arms the pacer of a worker that was stopped while its task
  was in flight; \<open>enqueue\<close> checks \<open>started\<close> before it arms, the callback does not.
\<close>

lemma pacer_armed_while_stopped:
  "map_option (\<lambda>s. (timeout s, started s))
     (exec [Api (EnqueueRequest 1 0 ok_handler), Start [], Fire 1, Stop,
            Respond 0 (Succeeds \<lparr>payload = 0, hasNextPage = False, nextPage = None\<rparr>),
            Finally 0] init)
   = Some (Some 2, False)"
  by (simp add: ev ok_handler_def)

subsection \<open>Outcomes of stale tasks\<close>

text \<open>
  C4. A task whose token differs from the current epoch changes none of the three
  counters, whatever its outcome: neither the callbacks of its request, nor its \<open>catch\<close>
  callback, nor its \<open>finally\<close> callback.
\<close>

theorem stale_outcome_keeps_counters:
  assumes "token (inflight s ! i) \<noteq> cancel s"
    and "e = Respond i r \<or> e = Catch i \<or> e = Finally i"
    and "step e s = Some s1"
  shows "progressDone s1 = progressDone s \<and> progressTotal s1 = progressTotal s
       \<and> progressErrors s1 = progressErrors s"
proof -
  from assms(2) consider (respond) "e = Respond i r" | (catch) "e = Catch i" | (final) "e = Finally i"
    by blast
  then show ?thesis
  proof cases
    case respond
    with assms(3) have "step (Respond i r) s = Some s1" by simp
    then obtain ph where
      "s1 = set_phase i ph (state_of (settle (act (inflight s ! i)) (token (inflight s ! i)) r s))"
      by (rule step_respond)
    with assms(1) show ?thesis by (simp add: settle_stale)
  next
    case catch
    with assms(1,3) show ?thesis by (auto split: if_splits)
  next
    case final
    with assms(1,3) show ?thesis by (auto split: if_splits)
  qed
qed

text \<open>
  The run: a task is started, the worker is stopped and reset, a new request is enqueued,
  and then the request of the old task fails.
\<close>

theorem stale_outcome_keeps_counters_witness:
  "\<exists>s s1. exec [Api (EnqueueRequest 1 0 ok_handler), Start [], Fire 1, Stop, ResetProgress,
               Api (EnqueueRequest 1 1 ok_handler)] init = Some s
     \<and> token (inflight s ! 0) \<noteq> cancel s
     \<and> step (Respond 0 (Fails (JObject 7))) s = Some s1
     \<and> progressTotal s = 1
     \<and> progressDone s1 = progressDone s \<and> progressTotal s1 = progressTotal s
     \<and> progressErrors s1 = progressErrors s"
proof -
  let ?es = "[Api (EnqueueRequest 1 0 ok_handler), Start [], Fire 1, Stop, ResetProgress,
              Api (EnqueueRequest 1 1 ok_handler)]"
  obtain s where s: "exec ?es init = Some s" by (simp add: ev)
  have t: "token (inflight s ! 0) \<noteq> cancel s" and n: "progressTotal s = 1"
    using s by (auto simp: ev)
  obtain s1 where s1: "step (Respond 0 (Fails (JObject 7))) s = Some s1"
    using s by (auto simp: ev)
  from stale_outcome_keeps_counters [OF t _ s1, of "Fails (JObject 7)"] s t n s1
  show ?thesis by blast
qed

subsection \<open>Reset\<close>

text \<open>
  C5. \<open>resetProgress\<close> on a running worker signals the error and leaves the state as it
  is; on a worker that is not running it clears the queue, zeroes the three counters,
  clears \<open>queueFilled\<close> and increments the epoch.
\<close>

theorem resetProgress_guarded:
  "(running s \<longrightarrow> resetProgress s = Inl CannotResetWhileRunning \<and> step ResetProgress s = Some s)
   \<and> (\<not> running s \<longrightarrow>
        (\<exists>s1. resetProgress s = Inr s1 \<and> step ResetProgress s = Some s1
           \<and> queue s1 = [] \<and> progressDone s1 = 0 \<and> progressTotal s1 = 0
           \<and> progressErrors s1 = 0 \<and> \<not> queueFilled s1 \<and> cancel s1 = cancel s + 1))"
  by (simp add: resetProgress_def record_call_def pq_clear_def)

text \<open>
  Both cases: a started worker with a queued request, and the same worker before it is
  started.
\<close>

theorem resetProgress_guarded_witness:
  "(\<exists>s. exec [Api (EnqueueRequest 1 0 ok_handler), Start []] init = Some s
        \<and> running s \<and> resetProgress s = Inl CannotResetWhileRunning
        \<and> step ResetProgress s = Some s)
   \<and> (\<exists>s s1. exec [Api (EnqueueRequest 1 0 ok_handler)] init = Some s
        \<and> \<not> running s \<and> progressTotal s = 1 \<and> length (queue s) = 1 \<and> cancel s = 0
        \<and> resetProgress s = Inr s1 \<and> queue s1 = [] \<and> progressDone s1 = 0
        \<and> progressTotal s1 = 0 \<and> progressErrors s1 = 0 \<and> \<not> queueFilled s1 \<and> cancel s1 = 1)"
proof -
  obtain s where s: "exec [Api (EnqueueRequest 1 0 ok_handler), Start []] init = Some s"
    by (simp add: ev)
  have r: "running s" using s by (auto simp: ev)
  obtain u where u: "exec [Api (EnqueueRequest 1 0 ok_handler)] init = Some u"
    by (simp add: ev)
  have n: "\<not> running u" and f: "progressTotal u = 1" "length (queue u) = 1" "cancel u = 0"
    using u by (auto simp: ev)
  from resetProgress_guarded [of s] r s have a:
    "\<exists>s. exec [Api (EnqueueRequest 1 0 ok_handler), Start []] init = Some s
        \<and> running s \<and> resetProgress s = Inl CannotResetWhileRunning
        \<and> step ResetProgress s = Some s"
    by blast
  from resetProgress_guarded [of u] n obtain u1 where
    "resetProgress u = Inr u1" "queue u1 = []" "progressDone u1 = 0" "progressTotal u1 = 0"
    "progressErrors u1 = 0" "\<not> queueFilled u1" "cancel u1 = cancel u + 1"
    by blast
  with u n f have b:
    "\<exists>s s1. exec [Api (EnqueueRequest 1 0 ok_handler)] init = Some s
        \<and> \<not> running s \<and> progressTotal s = 1 \<and> length (queue s) = 1 \<and> cancel s = 0
        \<and> resetProgress s = Inr s1 \<and> queue s1 = [] \<and> progressDone s1 = 0
        \<and> progressTotal s1 = 0 \<and> progressErrors s1 = 0 \<and> \<not> queueFilled s1 \<and> cancel s1 = 1"
    by (intro exI [of _ u] exI [of _ u1]) simp
  from a b show ?thesis by blast
qed

subsection \<open>The dispatched counter\<close>



subsection \<open>Start\<close>




subsection \<open>Failures of a paged request\<close>

text \<open>
  C8. While a task of a paged request waits for its response: a response that announces a
  further page and gives no request for it rejects the overall promise (with
  \<open>'AWS is a liar'\<close> when the task is current and the handler returned), and a failed
  request rejects it with the error of the request; in both cases nothing is enqueued.
\<close>

theorem paged_failures_reject:
  assumes "exec es init = Some s" "in_phase s i AwaitResponse"
    and "act (inflight s ! i) = PagedFn prio request h p"
  shows "(hasNextPage r \<and> nextPage r = None \<longrightarrow>
           (\<exists>s1. step (Respond i (Succeeds r)) s = Some s1
              \<and> (\<exists>v. promises s1 p = Rejected v)
              \<and> (token (inflight s ! i) = cancel s \<and> (\<exists>v. h r = Inr v) \<longrightarrow>
                   promises s1 p = Rejected (JString ''AWS is a liar''))
              \<and> queue s1 = queue s \<and> progressTotal s1 = progressTotal s))
       \<and> (\<exists>s2. step (Respond i (Fails e)) s = Some s2
              \<and> promises s2 p = Rejected e \<and> in_phase s2 i AwaitCatch
              \<and> queue s2 = queue s \<and> progressTotal s2 = progressTotal s)"
proof -
  have "promise_inv s" using assms(1) by (rule promise_inv_exec)
  then have "promises s (promise_of (act (inflight s ! i))) = Pending"
    using assms(2) by (rule awaiting_pending)
  then have pend: "promises s p = Pending" by (simp add: assms(3))
  have i: "i < length (inflight s)" using assms(2) by (simp add: in_phase_def)
  show ?thesis
    using assms(2,3) pend i
    by (cases "h r")
       (auto simp: handlePagedResponse_def pagedCatch_def call_handler_def record_call_def
          reject_def cancelled_def in_phase_def)
qed

text \<open>The run: the first page of a paged request, answered in the two ways.\<close>

theorem paged_failures_reject_witness:
  "\<exists>s s1 s2. exec [Api (EnqueuePagedRequest 1 0 ok_handler), Start [], Fire 1] init = Some s
     \<and> in_phase s 0 AwaitResponse \<and> act (inflight s ! 0) = PagedFn 1 0 ok_handler 0
     \<and> step (Respond 0 (Succeeds \<lparr>payload = 5, hasNextPage = True, nextPage = None\<rparr>)) s = Some s1
     \<and> promises s1 0 = Rejected (JString ''AWS is a liar'')
     \<and> step (Respond 0 (Fails (JObject 7))) s = Some s2
     \<and> promises s2 0 = Rejected (JObject 7)"
proof -
  let ?es = "[Api (EnqueuePagedRequest 1 0 ok_handler), Start [], Fire 1]"
  let ?r = "\<lparr>payload = 5, hasNextPage = True, nextPage = None\<rparr>"
  obtain s where s: "exec ?es init = Some s" by (simp add: ev)
  have p: "in_phase s 0 AwaitResponse" and a: "act (inflight s ! 0) = PagedFn 1 0 ok_handler 0"
    and t: "token (inflight s ! 0) = cancel s"
    using s by (auto simp: ev)
  from paged_failures_reject [OF s p a, of ?r "JObject 7"] s p a t
  show ?thesis by (auto simp: ok_handler_def)
qed

subsection \<open>Outcomes of current tasks\<close>

text \<open>
  C9. A task whose token is still current is counted as done exactly once, whether its
  promise is fulfilled (the \<open>finally\<close> callback alone runs) or rejected (the \<open>catch\<close>
  callback runs first); in the second case it is counted as failed as well. One of the two
  sequences of callbacks is the one that runs.
\<close>

theorem current_outcome_counts_done:
  assumes "in_phase s i AwaitResponse" "token (inflight s ! i) = cancel s"
  shows "(exec [Respond i r, Finally i] s = Some s1 \<longrightarrow>
            progressDone s1 = progressDone s + 1 \<and> progressErrors s1 = progressErrors s)
       \<and> (exec [Respond i r, Catch i, Finally i] s = Some s2 \<longrightarrow>
            progressDone s2 = progressDone s + 1 \<and> progressErrors s2 = progressErrors s + 1)
       \<and> (exec [Respond i r, Finally i] s \<noteq> None \<or> exec [Respond i r, Catch i, Finally i] s \<noteq> None)"
proof -
  let ?t = "inflight s ! i"
  let ?c = "settle (act ?t) (token ?t) r s"
  have i: "i < length (inflight s)" using assms(1) by (simp add: in_phase_def)
  show ?thesis
  proof (cases ?c)
    case (Returns s3)
    then have "state_of ?c = s3" by simp
    then have fr: "cancel s3 = cancel s" "inflight s3 = inflight s" "progressDone s3 = progressDone s"
      "progressErrors s3 = progressErrors s"
      by (metis settle_frame)+
    from Returns assms i show ?thesis
      by (auto simp: in_phase_def fr)
  next
    case (Throws x s3)
    then have "state_of ?c = s3" by simp
    then have fr: "cancel s3 = cancel s" "inflight s3 = inflight s" "progressDone s3 = progressDone s"
      "progressErrors s3 = progressErrors s"
      by (metis settle_frame)+
    from Throws assms i show ?thesis
      by (auto simp: in_phase_def fr)
  qed
qed

text \<open>The run: the request of the only task fails.\<close>

theorem current_outcome_counts_done_witness:
  "\<exists>s s2. exec [Api (EnqueueRequest 1 0 ok_handler), Start [], Fire 1] init = Some s
     \<and> in_phase s 0 AwaitResponse \<and> token (inflight s ! 0) = cancel s
     \<and> exec [Respond 0 (Fails (JObject 7)), Catch 0, Finally 0] s = Some s2
     \<and> progressDone s2 = progressDone s + 1 \<and> progressErrors s2 = progressErrors s + 1"
proof -
  let ?es = "[Api (EnqueueRequest 1 0 ok_handler), Start [], Fire 1]"
  obtain s where s: "exec ?es init = Some s" by (simp add: ev)
  have p: "in_phase s 0 AwaitResponse" and t: "token (inflight s ! 0) = cancel s"
    using s by (auto simp: ev)
  obtain s2 where s2: "exec [Respond 0 (Fails (JObject 7)), Catch 0, Finally 0] s = Some s2"
    using s by (auto simp: ev)
  from current_outcome_counts_done [OF p t, of "Fails (JObject 7)" _ s2] s p t s2
  show ?thesis by blast
qed

subsection \<open>A single request answered after a reset\<close>

text \<open>
  C10. When the response of a single request arrives and the epoch is no longer the token
  of the task, the promise that \<open>enqueueRequest\<close> returned is rejected with
  \<open>'cancelled'\<close>, and the handler is not called: no call is recorded.
\<close>

theorem stale_request_rejects_cancelled:
  assumes "exec es init = Some s" "in_phase s i AwaitResponse"
    and "act (inflight s ! i) = RequestFn request h p"
    and "token (inflight s ! i) \<noteq> cancel s"
  shows "\<exists>s1. step (Respond i (Succeeds r)) s = Some s1
           \<and> promises s1 p = Rejected (JString ''cancelled'')
           \<and> calls s1 = calls s"
proof -
  have "promise_inv s" using assms(1) by (rule promise_inv_exec)
  then have "promises s (promise_of (act (inflight s ! i))) = Pending"
    using assms(2) by (rule awaiting_pending)
  then have pend: "promises s p = Pending" by (simp add: assms(3))
  show ?thesis
    using assms(2,3,4) pend
    by (auto simp: requestThen_def reject_def cancelled_def in_phase_def)
qed

text \<open>The run: the task is started, the worker is stopped and reset, the response arrives.\<close>

theorem stale_request_rejects_cancelled_witness:
  "\<exists>s s1. exec [Api (EnqueueRequest 1 0 ok_handler), Start [], Fire 1, Stop, ResetProgress] init
        = Some s
     \<and> in_phase s 0 AwaitResponse \<and> act (inflight s ! 0) = RequestFn 0 ok_handler 0
     \<and> token (inflight s ! 0) \<noteq> cancel s
     \<and> step (Respond 0 (Succeeds \<lparr>payload = 5, hasNextPage = False, nextPage = None\<rparr>)) s = Some s1
     \<and> promises s1 0 = Rejected (JString ''cancelled'') \<and> calls s1 = calls s"
proof -
  let ?es = "[Api (EnqueueRequest 1 0 ok_handler), Start [], Fire 1, Stop, ResetProgress]"
  let ?r = "\<lparr>payload = 5, hasNextPage = False, nextPage = None\<rparr>"
  obtain s where s: "exec ?es init = Some s" by (simp add: ev)
  have p: "in_phase s 0 AwaitResponse" and a: "act (inflight s ! 0) = RequestFn 0 ok_handler 0"
    and t: "token (inflight s ! 0) \<noteq> cancel s"
    using s by (auto simp: ev)
  from stale_request_rejects_cancelled [OF s p a t, of ?r] s p a t
  show ?thesis by blast
qed

end
